theory Spec2Isabelle
  imports Main "HOL-Library.Word" "HOL-Library.Multiset"
begin

section \<open>The sync endpoints of the backend (app/api/sync.py)\<close>

text \<open>
  The model follows \<^verbatim>\<open>app/api/sync.py\<close>, \<^verbatim>\<open>app/models/task.py\<close> and the session
  settings of \<^verbatim>\<open>app/db/database.py\<close>.

  \<^item> A UUID is a 128-bit word; only equality of identifiers is used.
  \<^item> A \<^verbatim>\<open>datetime\<close> is an integer (a count of microseconds); only comparison is used.
    The timestamp columns hold every value of Python's \<^verbatim>\<open>datetime\<close>.
  \<^item> \<^verbatim>\<open>version\<close> is Python's unbounded \<^verbatim>\<open>int\<close>, hence \<^typ>\<open>int\<close>: the comparison and
    the increment happen in Python, and pydantic accepts any \<^verbatim>\<open>int\<close> and any \<^verbatim>\<open>str\<close>.
  \<^item> The columns of task.py are narrower: \<^verbatim>\<open>Integer\<close> holds 32 bits, \<^verbatim>\<open>String(10)\<close> ten
    characters, and no text column holds the character NUL. A statement of the flush that
    carries a value its column cannot hold fails, and the request with it.
  \<^item> The table \<^verbatim>\<open>tasks\<close> is a list of rows. \<^verbatim>\<open>id\<close> alone is its primary key
    (\<^verbatim>\<open>primary_key=True\<close> in task.py), which the INSERT of the flush enforces.
  \<^item> \<^verbatim>\<open>datetime.utcnow()\<close> is a clock given as a function of the number of readings made so
    far in the request; \<^verbatim>\<open>func.now()\<close>, the server default of the timestamp columns, is the
    database's own clock and a parameter of the commit.
\<close>

subsection \<open>Data\<close>

type_synonym uuid = "128 word"
type_synonym datetime = int

text \<open>The pydantic model \<^verbatim>\<open>TaskSync\<close> (sync.py, lines 19-27).\<close>

record TaskSync =
  ts_id :: uuid
  ts_title :: string
  ts_notes :: "string option"
  ts_due_date :: "datetime option"
  ts_priority :: "string option"
  ts_completed_at :: "datetime option"
  ts_is_deleted :: bool
  ts_version :: int

text \<open>The ORM class \<^verbatim>\<open>Task\<close> (task.py, lines 11-35): one row of the table.\<close>

record Task =
  task_id :: uuid
  user_id :: uuid
  title :: string
  task_notes :: "string option"
  due_date :: "datetime option"
  priority :: "string option"
  project_id :: "uuid option"
  completed_at :: "datetime option"
  is_deleted :: bool
  created_at :: datetime
  modified_at :: datetime
  version :: int

record SyncPushRequest =
  tasks :: "TaskSync list"
  last_sync_at :: "datetime option"

record SyncPullResponse =
  pull_tasks :: "TaskSync list"
  pull_server_time :: datetime

record SyncPushResponse =
  success :: bool
  conflicts :: "uuid list"
  server_time :: datetime

text \<open>
  The exceptions that can leave the handler: the primary-key violation of an INSERT
  (\<^verbatim>\<open>IntegrityError\<close>), a value that its column cannot hold (\<^verbatim>\<open>DBAPIError\<close>, raised for
  the driver's or the server's refusal), and \<^verbatim>\<open>scalar_one_or_none\<close> finding more than one
  row.
\<close>

datatype error = IntegrityError | DBAPIError | MultipleResultsFound

text \<open>
  The state of one run of \<^verbatim>\<open>push_changes\<close>. The session is created with
  \<^verbatim>\<open>autoflush=False\<close>, so until the commit
  \<^item> \<^verbatim>\<open>st_rows\<close> are the persistent rows as the session sees them: a row that was loaded
    and assigned to is the same object at the next query (identity map), so the assignments
    are visible to later records of the batch;
  \<^item> \<^verbatim>\<open>st_added\<close> are the objects passed to \<^verbatim>\<open>db.add\<close>, which no query sees before
    the flush. Their \<^verbatim>\<open>created_at\<close> and \<^verbatim>\<open>modified_at\<close> are server defaults, filled in
    by the database at the INSERT, so a pending object is a function of that time;
  \<^item> \<^verbatim>\<open>st_conflicts\<close> is the local list \<^verbatim>\<open>conflicts\<close>;
  \<^item> \<^verbatim>\<open>st_ticks\<close> counts the readings of \<^verbatim>\<open>datetime.utcnow()\<close>.
\<close>

record push_state =
  st_rows :: "Task list"
  st_added :: "(datetime \<Rightarrow> Task) list"
  st_conflicts :: "uuid list"
  st_ticks :: nat

subsection \<open>The queries\<close>

text \<open>
  \<^verbatim>\<open>select(Task).where(and_(Task.id == task_data.id, Task.user_id == current_user.id))\<close>
\<close>

definition select_task :: "uuid \<Rightarrow> uuid \<Rightarrow> Task list \<Rightarrow> Task list" where
  "select_task i uid db = filter (\<lambda>r. task_id r = i \<and> user_id r = uid) db"

fun scalar_one_or_none :: "'a list \<Rightarrow> error + 'a option" where
  "scalar_one_or_none [] = Inr None"
| "scalar_one_or_none [x] = Inr (Some x)"
| "scalar_one_or_none (x # y # zs) = Inl MultipleResultsFound"

text \<open>
  \<^verbatim>\<open>order_by(Task.modified_at.desc())\<close>: the rows by descending key. The engine is free
  in the order of rows with equal keys; the model takes the reverse of the stable sort.
\<close>

definition order_by_desc :: "('a \<Rightarrow> int) \<Rightarrow> 'a list \<Rightarrow> 'a list" where
  "order_by_desc k xs = rev (sort_key k xs)"

subsection \<open>push_changes\<close>

text \<open>The assignments of lines 70-77 to the attributes of \<^verbatim>\<open>existing_task\<close>.\<close>

definition update_existing :: "TaskSync \<Rightarrow> datetime \<Rightarrow> Task \<Rightarrow> Task" where
  "update_existing task_data now existing_task =
     existing_task\<lparr>title := ts_title task_data,
                   task_notes := ts_notes task_data,
                   due_date := ts_due_date task_data,
                   priority := ts_priority task_data,
                   completed_at := ts_completed_at task_data,
                   is_deleted := ts_is_deleted task_data,
                   version := ts_version task_data + 1,
                   modified_at := now\<rparr>"

text \<open>
  The constructor call of lines 81-91. \<^verbatim>\<open>project_id\<close> is not passed and stays null; the
  two timestamps are the server default \<^verbatim>\<open>func.now()\<close> of the INSERT.
\<close>

definition new_task :: "uuid \<Rightarrow> TaskSync \<Rightarrow> datetime \<Rightarrow> Task" where
  "new_task uid task_data db_now =
     \<lparr>task_id = ts_id task_data,
      user_id = uid,
      title = ts_title task_data,
      task_notes = ts_notes task_data,
      due_date = ts_due_date task_data,
      priority = ts_priority task_data,
      project_id = None,
      completed_at = ts_completed_at task_data,
      is_deleted = ts_is_deleted task_data,
      created_at = db_now,
      modified_at = db_now,
      version = ts_version task_data\<rparr>"

text \<open>
  The body of the loop over \<^verbatim>\<open>data.tasks\<close> (lines 56-92). \<^verbatim>\<open>existing_task\<close> is the
  one row that the query returned, so assigning to its attributes changes the rows with that
  id and owner; an ORM object is always true, so \<^verbatim>\<open>if existing_task:\<close> tests that a row
  was found.
\<close>

definition push_task ::
  "(nat \<Rightarrow> datetime) \<Rightarrow> uuid \<Rightarrow> TaskSync \<Rightarrow> push_state \<Rightarrow> error + push_state" where
  "push_task utcnow uid task_data s =
     (case scalar_one_or_none (select_task (ts_id task_data) uid (st_rows s)) of
        Inl e \<Rightarrow> Inl e
      | Inr (Some existing_task) \<Rightarrow>
          if version existing_task > ts_version task_data
          then Inr (s\<lparr>st_conflicts := st_conflicts s @ [ts_id task_data]\<rparr>)
          else Inr (s\<lparr>st_rows :=
                         map (\<lambda>r. if task_id r = ts_id task_data \<and> user_id r = uid
                                  then update_existing task_data (utcnow (st_ticks s)) r
                                  else r) (st_rows s),
                       st_ticks := Suc (st_ticks s)\<rparr>)
      | Inr None \<Rightarrow> Inr (s\<lparr>st_added := st_added s @ [new_task uid task_data]\<rparr>))"

fun push_loop ::
  "(nat \<Rightarrow> datetime) \<Rightarrow> uuid \<Rightarrow> TaskSync list \<Rightarrow> push_state \<Rightarrow> error + push_state" where
  "push_loop utcnow uid [] s = Inr s"
| "push_loop utcnow uid (task_data # rest) s =
     (case push_task utcnow uid task_data s of
        Inl e \<Rightarrow> Inl e
      | Inr s' \<Rightarrow> push_loop utcnow uid rest s')"

text \<open>
  What the columns of the table hold (task.py, lines 20-35): \<^verbatim>\<open>version\<close> is an
  \<^verbatim>\<open>Integer\<close>, a signed 32-bit number; \<^verbatim>\<open>title\<close> and \<^verbatim>\<open>notes\<close> are \<^verbatim>\<open>Text\<close>, which
  cannot contain the character NUL; \<^verbatim>\<open>priority\<close> is \<^verbatim>\<open>String(10)\<close>, text of at most ten
  characters, where a longer value is refused unless the characters that exceed are all
  spaces, which are then cut off.
\<close>

definition int32 :: "int \<Rightarrow> bool" where
  "int32 v \<longleftrightarrow> - 2147483648 \<le> v \<and> v \<le> 2147483647"

definition text_value :: "string \<Rightarrow> bool" where
  "text_value s \<longleftrightarrow> CHR 0x00 \<notin> set s"

definition varchar_value :: "nat \<Rightarrow> string \<Rightarrow> bool" where
  "varchar_value n s \<longleftrightarrow> text_value s \<and> set (drop n s) \<subseteq> {CHR '' ''}"

definition fits_columns :: "Task \<Rightarrow> bool" where
  "fits_columns r \<longleftrightarrow>
     int32 (version r)
     \<and> text_value (title r)
     \<and> (case task_notes r of None \<Rightarrow> True | Some s \<Rightarrow> text_value s)
     \<and> (case priority r of None \<Rightarrow> True | Some s \<Rightarrow> varchar_value 10 s)"

definition as_stored :: "Task \<Rightarrow> Task" where
  "as_stored r = r\<lparr>priority := map_option (take 10) (priority r)\<rparr>"

text \<open>Writing one row, in an INSERT or an UPDATE: the row as the table then holds it.\<close>

definition write_row :: "Task \<Rightarrow> error + Task" where
  "write_row r = (if fits_columns r then Inr (as_stored r) else Inl DBAPIError)"

text \<open>
  The UPDATEs of the flush, over the rows of the table paired with the rows as the session
  has them: a row with no net change is not written.
\<close>

fun flush_updates :: "(Task \<times> Task) list \<Rightarrow> error + Task list" where
  "flush_updates [] = Inr []"
| "flush_updates ((old, new) # rest) =
     (if new = old
      then (case flush_updates rest of Inl e \<Rightarrow> Inl e | Inr rows \<Rightarrow> Inr (old # rows))
      else (case write_row new of
              Inl e \<Rightarrow> Inl e
            | Inr written \<Rightarrow>
                (case flush_updates rest of
                   Inl e \<Rightarrow> Inl e
                 | Inr rows \<Rightarrow> Inr (written # rows))))"

text \<open>
  The INSERTs of the flush, row by row: an identifier that the table already holds, under
  any owner or from an earlier INSERT of the same flush, violates the primary key.
\<close>

fun flush_inserts :: "Task list \<Rightarrow> Task list \<Rightarrow> error + Task list" where
  "flush_inserts db [] = Inr db"
| "flush_inserts db (n # ns) =
     (case write_row n of
        Inl e \<Rightarrow> Inl e
      | Inr written \<Rightarrow>
          if task_id written \<in> set (map task_id db) then Inl IntegrityError
          else flush_inserts (db @ [written]) ns)"

text \<open>
  \<^verbatim>\<open>await db.commit()\<close> (line 94), on the table \<^verbatim>\<open>db\<close> that the request started with: the
  rows that were assigned to are updated, then the pending objects are inserted at the
  database's time. The first statement that fails ends the flush; when several would fail,
  the exception reported is the one of the first in this order.
\<close>

definition commit :: "datetime \<Rightarrow> Task list \<Rightarrow> push_state \<Rightarrow> error + Task list" where
  "commit db_now db s =
     (case flush_updates (zip db (st_rows s)) of
        Inl e \<Rightarrow> Inl e
      | Inr rows \<Rightarrow> flush_inserts rows (map (\<lambda>mk. mk db_now) (st_added s)))"

text \<open>
  The handler. An exception leaves through \<^verbatim>\<open>get_db\<close>, which rolls the transaction back:
  the table is then the one the request started with.
\<close>

definition push_changes ::
  "(nat \<Rightarrow> datetime) \<Rightarrow> datetime \<Rightarrow> SyncPushRequest \<Rightarrow> uuid \<Rightarrow> Task list
     \<Rightarrow> (error + SyncPushResponse) \<times> Task list" where
  "push_changes utcnow db_now data uid db =
     (case push_loop utcnow uid (tasks data)
             \<lparr>st_rows = db, st_added = [], st_conflicts = [], st_ticks = 0\<rparr> of
        Inl e \<Rightarrow> (Inl e, db)
      | Inr s \<Rightarrow>
          (case commit db_now db s of
             Inl e \<Rightarrow> (Inl e, db)
           | Inr db' \<Rightarrow>
               (Inr \<lparr>success = True, conflicts = st_conflicts s,
                     server_time = utcnow (st_ticks s)\<rparr>, db')))"

text \<open>
  A pushed record whose values fit the columns both ways: as a new row, with its own
  version, and as an update, with its version plus one.
\<close>

definition fits_push :: "TaskSync \<Rightarrow> bool" where
  "fits_push t \<longleftrightarrow>
     int32 (ts_version t) \<and> int32 (ts_version t + 1)
     \<and> text_value (ts_title t)
     \<and> (case ts_notes t of None \<Rightarrow> True | Some s \<Rightarrow> text_value s)
     \<and> (case ts_priority t of None \<Rightarrow> True | Some s \<Rightarrow> varchar_value 10 s)"


subsection \<open>pull_changes\<close>

text \<open>
  The query of lines 112-120. A \<^verbatim>\<open>datetime\<close> is always true in Python, so
  \<^verbatim>\<open>if since:\<close> tests that the parameter was given.
\<close>

definition pull_rows :: "datetime option \<Rightarrow> uuid \<Rightarrow> Task list \<Rightarrow> Task list" where
  "pull_rows since uid db =
     (let query = filter (\<lambda>r. user_id r = uid) db;
          query' = (case since of
                      Some s \<Rightarrow> filter (\<lambda>r. modified_at r > s) query
                    | None \<Rightarrow> query)
      in order_by_desc modified_at query')"

text \<open>The conversion of lines 123-135.\<close>

definition to_sync :: "Task \<Rightarrow> TaskSync" where
  "to_sync task =
     \<lparr>ts_id = task_id task,
      ts_title = title task,
      ts_notes = task_notes task,
      ts_due_date = due_date task,
      ts_priority = priority task,
      ts_completed_at = completed_at task,
      ts_is_deleted = is_deleted task,
      ts_version = version task\<rparr>"

definition pull_changes ::
  "datetime \<Rightarrow> datetime option \<Rightarrow> uuid \<Rightarrow> Task list \<Rightarrow> SyncPullResponse" where
  "pull_changes now since uid db =
     \<lparr>pull_tasks = map to_sync (pull_rows since uid db), pull_server_time = now\<rparr>"

subsection \<open>Sample data\<close>

text \<open>A clock, a row and a pushed record, used to run the handlers on concrete inputs.\<close>

definition utc_clock :: "nat \<Rightarrow> datetime" where
  "utc_clock n = 1000 + int n"

definition sample_row :: "uuid \<Rightarrow> uuid \<Rightarrow> int \<Rightarrow> datetime \<Rightarrow> Task" where
  "sample_row i u v m =
     \<lparr>task_id = i, user_id = u, title = ''X'', task_notes = None, due_date = None,
      priority = None, project_id = None, completed_at = None, is_deleted = False,
      created_at = m, modified_at = m, version = v\<rparr>"

definition sample_push :: "uuid \<Rightarrow> int \<Rightarrow> TaskSync" where
  "sample_push i v =
     \<lparr>ts_id = i, ts_title = ''X'', ts_notes = None, ts_due_date = None, ts_priority = None,
      ts_completed_at = None, ts_is_deleted = False, ts_version = v\<rparr>"


section \<open>Properties of the loop and of the flush\<close>

lemma update_existing_keys [simp]:
  "task_id (update_existing t now r) = task_id r"
  "user_id (update_existing t now r) = user_id r"
  "version (update_existing t now r) = ts_version t + 1"
  "modified_at (update_existing t now r) = now"
  by (simp_all add: update_existing_def)

lemma select_task_map_update:
  "select_task i uid (map (\<lambda>r. if task_id r = j \<and> user_id r = u then update_existing t now r else r) db)
   = map (\<lambda>r. if task_id r = j \<and> user_id r = u then update_existing t now r else r) (select_task i uid db)"
  unfolding select_task_def by (induction db) auto

lemma select_task_sound:
  "r \<in> set (select_task i uid db) \<Longrightarrow> task_id r = i \<and> user_id r = uid \<and> r \<in> set db"
  by (simp add: select_task_def)

lemma select_task_single:
  assumes "select_task i uid db = [cur]"
  shows "task_id cur = i" and "user_id cur = uid" and "cur \<in> set db"
proof -
  have "cur \<in> set (select_task i uid db)" using assms by simp
  then have "task_id cur = i \<and> user_id cur = uid \<and> cur \<in> set db" by (rule select_task_sound)
  then show "task_id cur = i" and "user_id cur = uid" and "cur \<in> set db" by simp_all
qed

lemma push_task_existing:
  assumes "select_task (ts_id t) uid (st_rows s) = [cur]"
  shows "push_task utcnow uid t s =
     (if version cur > ts_version t
      then Inr (s\<lparr>st_conflicts := st_conflicts s @ [ts_id t]\<rparr>)
      else Inr (s\<lparr>st_rows := map (\<lambda>r. if task_id r = ts_id t \<and> user_id r = uid
                                  then update_existing t (utcnow (st_ticks s)) r else r) (st_rows s),
                   st_ticks := Suc (st_ticks s)\<rparr>))"
  using assms by (simp add: push_task_def)

lemma push_task_absent:
  assumes "select_task (ts_id t) uid (st_rows s) = []"
  shows "push_task utcnow uid t s = Inr (s\<lparr>st_added := st_added s @ [new_task uid t]\<rparr>)"
  using assms by (simp add: push_task_def)

lemma select_after_update:
  assumes "select_task (ts_id t) uid db = [cur]"
  shows "select_task (ts_id t) uid (map (\<lambda>r. if task_id r = ts_id t \<and> user_id r = uid
                                  then update_existing t now r else r) db) = [update_existing t now cur]"
  using assms select_task_single[OF assms] by (simp add: select_task_map_update)

lemma select_task_at_most_one:
  assumes "distinct (map task_id db)"
  shows "select_task i uid db = [] \<or> (\<exists>r. select_task i uid db = [r])"
proof -
  have "distinct (map task_id db) \<Longrightarrow> length (filter (\<lambda>r. task_id r = i \<and> user_id r = uid) db) \<le> 1"
  proof (induction db)
    case Nil
    then show ?case by simp
  next
    case (Cons a db)
    from Cons.prems have "task_id a \<notin> task_id ` set db" by simp
    then have "\<And>x. x \<in> set db \<Longrightarrow> task_id x \<noteq> task_id a" by (metis imageI)
    then have "task_id a = i \<Longrightarrow> filter (\<lambda>r. task_id r = i \<and> user_id r = uid) db = []"
      by (simp add: filter_empty_conv)
    with Cons show ?case by simp
  qed
  with assms have "length (select_task i uid db) \<le> 1" by (simp add: select_task_def)
  then show ?thesis by (cases "select_task i uid db") (auto simp: Suc_le_eq)
qed

lemma select_task_empty_iff:
  "select_task i uid db = [] \<longleftrightarrow> (i, uid) \<notin> set (map (\<lambda>r. (task_id r, user_id r)) db)"
  by (auto simp: select_task_def filter_empty_conv)

lemma push_task_keys:
  assumes "push_task utcnow uid t s = Inr s'"
  shows "map (\<lambda>r. (task_id r, user_id r)) (st_rows s') = map (\<lambda>r. (task_id r, user_id r)) (st_rows s)"
  using assms
  by (auto simp: push_task_def comp_def split: sum.splits option.splits if_splits)

lemma keys_imp_ids:
  "map (\<lambda>r. (task_id r, user_id r)) xs = map (\<lambda>r. (task_id r, user_id r)) ys
   \<Longrightarrow> map task_id xs = map task_id ys"
proof -
  assume "map (\<lambda>r. (task_id r, user_id r)) xs = map (\<lambda>r. (task_id r, user_id r)) ys"
  then have "map fst (map (\<lambda>r. (task_id r, user_id r)) xs) = map fst (map (\<lambda>r. (task_id r, user_id r)) ys)"
    by simp
  then show ?thesis by (simp add: comp_def)
qed

lemma push_task_total:
  assumes "distinct (map task_id (st_rows s))"
  shows "\<exists>s'. push_task utcnow uid t s = Inr s'"
  using select_task_at_most_one[OF assms, of "ts_id t" uid]
  by (auto simp: push_task_def)


lemma push_loop_keys:
  "push_loop utcnow uid ts s = Inr s' \<Longrightarrow>
   map (\<lambda>r. (task_id r, user_id r)) (st_rows s') = map (\<lambda>r. (task_id r, user_id r)) (st_rows s)"
proof (induction ts arbitrary: s)
  case Nil
  then show ?case by simp
next
  case (Cons t ts)
  then obtain s1 where 1: "push_task utcnow uid t s = Inr s1" and 2: "push_loop utcnow uid ts s1 = Inr s'"
    by (auto split: sum.splits)
  from Cons.IH[OF 2] push_task_keys[OF 1] show ?case by simp
qed


lemma push_loop_total:
  "distinct (map task_id (st_rows s)) \<Longrightarrow> \<exists>s'. push_loop utcnow uid ts s = Inr s'"
proof (induction ts arbitrary: s)
  case Nil
  then show ?case by simp
next
  case (Cons t ts)
  from push_task_total[OF Cons.prems] obtain s1 where 1: "push_task utcnow uid t s = Inr s1" by blast
  from push_task_keys[OF 1] have "map task_id (st_rows s1) = map task_id (st_rows s)"
    by (rule keys_imp_ids)
  with Cons.prems have "distinct (map task_id (st_rows s1))" by simp
  from Cons.IH[OF this] 1 show ?case by simp
qed

lemma push_task_added_mono:
  "push_task utcnow uid t s = Inr s' \<Longrightarrow> set (st_added s) \<subseteq> set (st_added s')"
  by (auto simp: push_task_def split: sum.splits option.splits if_splits)

lemma push_loop_added_mono:
  "push_loop utcnow uid ts s = Inr s' \<Longrightarrow> set (st_added s) \<subseteq> set (st_added s')"
proof (induction ts arbitrary: s)
  case Nil
  then show ?case by simp
next
  case (Cons t ts)
  then obtain s1 where 1: "push_task utcnow uid t s = Inr s1" and 2: "push_loop utcnow uid ts s1 = Inr s'"
    by (auto split: sum.splits)
  from Cons.IH[OF 2] push_task_added_mono[OF 1] show ?case by blast
qed

lemma push_loop_adds_absent:
  "push_loop utcnow uid ts s = Inr s' \<Longrightarrow> t \<in> set ts \<Longrightarrow>
   select_task (ts_id t) uid (st_rows s) = [] \<Longrightarrow> new_task uid t \<in> set (st_added s')"
proof (induction ts arbitrary: s)
  case Nil
  then show ?case by simp
next
  case (Cons a ts)
  from Cons.prems(1) obtain s1 where 1: "push_task utcnow uid a s = Inr s1"
    and 2: "push_loop utcnow uid ts s1 = Inr s'"
    by (auto split: sum.splits)
  show ?case
  proof (cases "t = a")
    case True
    with 1 Cons.prems(3) have "new_task uid t \<in> set (st_added s1)"
      by (auto simp: push_task_absent)
    with push_loop_added_mono[OF 2] show ?thesis by blast
  next
    case False
    with Cons.prems(2) have "t \<in> set ts" by simp
    moreover have "select_task (ts_id t) uid (st_rows s1) = []"
      using Cons.prems(3) push_task_keys[OF 1] by (simp add: select_task_empty_iff)
    ultimately show ?thesis using Cons.IH[OF 2] by blast
  qed
qed

lemma scalar_one_or_none_None [simp]:
  "scalar_one_or_none xs = Inr None \<longleftrightarrow> xs = []"
  by (cases xs rule: scalar_one_or_none.cases) simp_all


lemma keys_imp_length:
  "map (\<lambda>r. (task_id r, user_id r)) xs = map (\<lambda>r. (task_id r, user_id r)) ys \<Longrightarrow> length xs = length ys"
  by (rule map_eq_imp_length_eq)

lemma order_by_desc_mset: "mset (order_by_desc k xs) = mset xs"
  by (simp add: order_by_desc_def)

lemma order_by_desc_sorted: "sorted_wrt (\<lambda>a b. k b \<le> k a) (order_by_desc k xs)"
proof -
  have "sorted (map k (sort_key k xs))" by (rule sorted_sort_key)
  then show ?thesis by (simp add: order_by_desc_def sorted_wrt_rev sorted_map)
qed

lemma pull_rows_mset:
  "mset (pull_rows since uid db) =
     filter_mset (\<lambda>r. user_id r = uid \<and> (case since of Some s \<Rightarrow> s < modified_at r | None \<Rightarrow> True))
       (mset db)"
  by (cases since) (simp_all add: pull_rows_def order_by_desc_mset conj_commute)

text \<open>No step of the loop lowers the version of a row or changes its key.\<close>

lemma scalar_one_or_none_Some [simp]:
  "scalar_one_or_none xs = Inr (Some x) \<longleftrightarrow> xs = [x]"
  by (cases xs rule: scalar_one_or_none.cases) simp_all

lemma push_task_version_mono:
  assumes "push_task utcnow uid t s = Inr s'"
  shows "list_all2 (\<lambda>a b. task_id b = task_id a \<and> user_id b = user_id a \<and> version a \<le> version b)
           (st_rows s) (st_rows s')"
proof (cases "scalar_one_or_none (select_task (ts_id t) uid (st_rows s))")
  case (Inl e)
  with assms show ?thesis by (simp add: push_task_def)
next
  case (Inr found)
  show ?thesis
  proof (cases found)
    case None
    with Inr assms show ?thesis by (auto simp: push_task_def list_all2_same)
  next
    case (Some cur)
    with Inr have sel: "select_task (ts_id t) uid (st_rows s) = [cur]" by simp
    show ?thesis
    proof (cases "version cur > ts_version t")
      case True
      with sel assms show ?thesis by (auto simp: push_task_existing list_all2_same)
    next
      case False
      have "\<And>r. r \<in> set (st_rows s) \<Longrightarrow> task_id r = ts_id t \<Longrightarrow> user_id r = uid \<Longrightarrow> r = cur"
      proof -
        fix r assume "r \<in> set (st_rows s)" "task_id r = ts_id t" "user_id r = uid"
        then have "r \<in> set (select_task (ts_id t) uid (st_rows s))" by (simp add: select_task_def)
        with sel show "r = cur" by simp
      qed
      with False sel assms show ?thesis
        by (auto simp: push_task_existing list_all2_map2 list_all2_same)
    qed
  qed
qed

lemma push_loop_version_mono:
  "push_loop utcnow uid ts s = Inr s' \<Longrightarrow>
   list_all2 (\<lambda>a b. task_id b = task_id a \<and> user_id b = user_id a \<and> version a \<le> version b)
     (st_rows s) (st_rows s')"
proof (induction ts arbitrary: s)
  case Nil
  then show ?case by (simp add: list_all2_same)
next
  case (Cons t ts)
  then obtain s1 where 1: "push_task utcnow uid t s = Inr s1" and 2: "push_loop utcnow uid ts s1 = Inr s'"
    by (auto split: sum.splits)
  from push_task_version_mono[OF 1] Cons.IH[OF 2] show ?case
    by (rule list_all2_trans[rotated]) auto
qed

text \<open>A batch that repeats a conflicting record only collects conflicts.\<close>

lemma push_loop_replicate_conflict:
  assumes "select_task (ts_id t) uid (st_rows s) = [cur]" and "version cur > ts_version t"
  shows "push_loop utcnow uid (replicate n t) s
           = Inr (s\<lparr>st_conflicts := st_conflicts s @ replicate n (ts_id t)\<rparr>)"
  using assms
proof (induction n arbitrary: s)
  case 0
  then show ?case by simp
next
  case (Suc n)
  let ?s1 = "s\<lparr>st_conflicts := st_conflicts s @ [ts_id t]\<rparr>"
  from Suc.prems have 1: "push_task utcnow uid t s = Inr ?s1" by (simp add: push_task_existing)
  from Suc.prems have "select_task (ts_id t) uid (st_rows ?s1) = [cur]" by simp
  from Suc.IH[OF this Suc.prems(2)] 1 show ?case
    by simp
qed

subsection \<open>The flush\<close>

lemma as_stored_keys [simp]:
  "task_id (as_stored r) = task_id r"
  "user_id (as_stored r) = user_id r"
  "version (as_stored r) = version r"
  "modified_at (as_stored r) = modified_at r"
  by (simp_all add: as_stored_def)

lemma write_row_Inr [simp]: "write_row r = Inr w \<longleftrightarrow> fits_columns r \<and> w = as_stored r"
  by (auto simp: write_row_def)

lemma write_row_Inl [simp]: "write_row r = Inl e \<longleftrightarrow> \<not> fits_columns r \<and> e = DBAPIError"
  by (auto simp: write_row_def)

lemma fits_columns_update_existing:
  "fits_columns (update_existing t now r) \<longleftrightarrow>
     int32 (ts_version t + 1) \<and> text_value (ts_title t)
     \<and> (case ts_notes t of None \<Rightarrow> True | Some s \<Rightarrow> text_value s)
     \<and> (case ts_priority t of None \<Rightarrow> True | Some s \<Rightarrow> varchar_value 10 s)"
  by (simp add: fits_columns_def update_existing_def)

lemma fits_columns_new_task:
  "fits_columns (new_task uid t now) \<longleftrightarrow>
     int32 (ts_version t) \<and> text_value (ts_title t)
     \<and> (case ts_notes t of None \<Rightarrow> True | Some s \<Rightarrow> text_value s)
     \<and> (case ts_priority t of None \<Rightarrow> True | Some s \<Rightarrow> varchar_value 10 s)"
  by (simp add: fits_columns_def new_task_def)

text \<open>The flush of the updates: it fails exactly when a changed row does not fit.\<close>

lemma flush_updates_eq:
  "flush_updates ps =
     (if list_all (\<lambda>(old, new). new = old \<or> fits_columns new) ps
      then Inr (map (\<lambda>(old, new). if new = old then old else as_stored new) ps)
      else Inl DBAPIError)"
proof (induction ps)
  case Nil
  then show ?case by simp
next
  case (Cons p ps)
  obtain old new where p: "p = (old, new)" by (cases p)
  show ?case unfolding p using Cons.IH by (auto simp: write_row_def)
qed

lemma flush_updates_same: "flush_updates (zip db db) = Inr db"
proof -
  have "list_all (\<lambda>(old, new). new = old \<or> fits_columns new) (zip db db)"
    by (induction db) simp_all
  moreover have "map (\<lambda>(old, new). if new = old then old else as_stored new) (zip db db) = db"
    by (induction db) simp_all
  ultimately show ?thesis by (simp add: flush_updates_eq)
qed

lemma zip_map_same: "zip db (map f db) = map (\<lambda>r. (r, f r)) db"
  by (induction db) simp_all

lemma flush_updates_map:
  "flush_updates (zip db (map f db)) =
     (if list_all (\<lambda>r. f r = r \<or> fits_columns (f r)) db
      then Inr (map (\<lambda>r. if f r = r then r else as_stored (f r)) db)
      else Inl DBAPIError)"
  by (simp add: flush_updates_eq zip_map_same list_all_iff)

text \<open>The flush of the inserts: what it returns, and when it fails.\<close>

lemma flush_inserts_Inr:
  "flush_inserts db ns = Inr db' \<Longrightarrow>
   db' = db @ map as_stored ns \<and> list_all fits_columns ns
   \<and> set (map task_id ns) \<inter> set (map task_id db) = {} \<and> distinct (map task_id ns)"
proof (induction ns arbitrary: db)
  case Nil
  then show ?case by simp
next
  case (Cons n ns)
  from Cons.prems have f: "fits_columns n" and k: "task_id n \<notin> set (map task_id db)"
    and r: "flush_inserts (db @ [as_stored n]) ns = Inr db'"
    by (auto split: sum.splits if_splits)
  from Cons.IH[OF r] f k show ?case by auto
qed

lemma flush_inserts_error:
  "flush_inserts db ns = Inl e \<Longrightarrow> e = IntegrityError \<or> e = DBAPIError"
  by (induction ns arbitrary: db) (auto split: sum.splits if_splits)

lemma flush_inserts_collision:
  assumes "\<exists>n\<in>set ns. task_id n \<in> set (map task_id db)"
  shows "\<exists>e. flush_inserts db ns = Inl e"
    and "list_all fits_columns ns \<Longrightarrow> flush_inserts db ns = Inl IntegrityError"
proof -
  show "\<exists>e. flush_inserts db ns = Inl e"
  proof (cases "flush_inserts db ns")
    case (Inl e)
    then show ?thesis by blast
  next
    case (Inr db')
    from flush_inserts_Inr[OF Inr] assms show ?thesis by auto
  qed
  then obtain e where e: "flush_inserts db ns = Inl e" by blast
  assume fits: "list_all fits_columns ns"
  have "list_all fits_columns ns \<Longrightarrow> flush_inserts db ns = Inl e \<Longrightarrow> e = IntegrityError"
    by (induction ns arbitrary: db) (auto split: sum.splits if_splits)
  with fits e show "flush_inserts db ns = Inl IntegrityError" by simp
qed

text \<open>The caller's lookup in the table after a commit.\<close>

lemma select_task_as_stored:
  "select_task i uid (map as_stored ns) = map as_stored (select_task i uid ns)"
  by (simp add: select_task_def filter_map comp_def)

lemma select_task_append:
  "select_task i uid (xs @ ys) = select_task i uid xs @ select_task i uid ys"
  by (simp add: select_task_def)

lemma select_task_flushed:
  assumes "map (\<lambda>r. (task_id r, user_id r)) news = map (\<lambda>r. (task_id r, user_id r)) olds"
  shows "select_task i uid (map (\<lambda>(old, new). if new = old then old else as_stored new) (zip olds news))
         = map (\<lambda>(old, new). if new = old then old else as_stored new)
             (zip (select_task i uid olds) (select_task i uid news))"
  using assms
proof (induction olds arbitrary: news)
  case Nil
  then show ?case by (simp add: select_task_def)
next
  case (Cons old olds)
  then obtain new news' where n: "news = new # news'" by (cases news) auto
  with Cons.prems have k: "task_id new = task_id old" "user_id new = user_id old"
    and rest: "map (\<lambda>r. (task_id r, user_id r)) news' = map (\<lambda>r. (task_id r, user_id r)) olds"
    by simp_all
  from Cons.IH[OF rest] k show ?case unfolding n by (simp add: select_task_def)
qed

lemma commit_select:
  assumes "commit db_now db s = Inr db'"
    and "map (\<lambda>r. (task_id r, user_id r)) (st_rows s) = map (\<lambda>r. (task_id r, user_id r)) db"
  shows "select_task i uid db'
         = map (\<lambda>(old, new). if new = old then old else as_stored new)
             (zip (select_task i uid db) (select_task i uid (st_rows s)))
           @ map as_stored (select_task i uid (map (\<lambda>mk. mk db_now) (st_added s)))"
proof -
  from assms(1) obtain rows where
    u: "flush_updates (zip db (st_rows s)) = Inr rows"
    and i: "flush_inserts rows (map (\<lambda>mk. mk db_now) (st_added s)) = Inr db'"
    by (auto simp: commit_def split: sum.splits)
  from u have r: "rows = map (\<lambda>(old, new). if new = old then old else as_stored new) (zip db (st_rows s))"
    by (simp add: flush_updates_eq split: if_splits)
  from flush_inserts_Inr[OF i]
  have d: "db' = rows @ map as_stored (map (\<lambda>mk. mk db_now) (st_added s))" by blast
  have "select_task i uid db'
          = select_task i uid rows
            @ map as_stored (select_task i uid (map (\<lambda>mk. mk db_now) (st_added s)))"
    unfolding d by (simp only: select_task_append select_task_as_stored)
  then show ?thesis unfolding r by (simp only: select_task_flushed[OF assms(2)])
qed

lemma commit_rows:
  assumes "commit db_now db s = Inr db'" and "length (st_rows s) = length db"
  shows "take (length db) db' = map (\<lambda>(old, new). if new = old then old else as_stored new) (zip db (st_rows s))"
    and "length db' = length db + length (st_added s)"
proof -
  from assms(1) obtain rows where
    u: "flush_updates (zip db (st_rows s)) = Inr rows"
    and i: "flush_inserts rows (map (\<lambda>mk. mk db_now) (st_added s)) = Inr db'"
    by (auto simp: commit_def split: sum.splits)
  from u have r: "rows = map (\<lambda>(old, new). if new = old then old else as_stored new) (zip db (st_rows s))"
    by (simp add: flush_updates_eq split: if_splits)
  with assms(2) have l: "length rows = length db" by simp
  from flush_inserts_Inr[OF i]
  have d: "db' = rows @ map as_stored (map (\<lambda>mk. mk db_now) (st_added s))" by blast
  from d l r show "take (length db) db' = map (\<lambda>(old, new). if new = old then old else as_stored new) (zip db (st_rows s))"
    by simp
  from d l show "length db' = length db + length (st_added s)" by simp
qed


subsection \<open>One record in a batch\<close>

text \<open>The loop runs the records one after the other.\<close>

lemma push_loop_append:
  "push_loop utcnow uid (xs @ ys) s =
     (case push_loop utcnow uid xs s of Inl e \<Rightarrow> Inl e | Inr s1 \<Rightarrow> push_loop utcnow uid ys s1)"
  by (induction xs arbitrary: s) (auto split: sum.splits)

text \<open>A record with another id leaves what the state holds for an id alone.\<close>

lemma push_task_frame:
  assumes "push_task utcnow uid u s = Inr s'" and "ts_id u \<noteq> i"
  shows "select_task i uid (st_rows s') = select_task i uid (st_rows s)"
    and "select_task i uid (map (\<lambda>mk. mk db_now) (st_added s'))
         = select_task i uid (map (\<lambda>mk. mk db_now) (st_added s))"
    and "i \<in> set (st_conflicts s') \<longleftrightarrow> i \<in> set (st_conflicts s)"
proof -
  have m: "map (\<lambda>r. if task_id r = ts_id u \<and> user_id r = uid then update_existing u now r else r)
             (select_task i uid (st_rows s)) = select_task i uid (st_rows s)" for now
    using assms(2) by (intro map_idI) (auto dest: select_task_sound)
  from assms show "select_task i uid (st_rows s') = select_task i uid (st_rows s)"
    by (auto simp: push_task_def select_task_map_update m split: sum.splits option.splits if_splits)
  from assms show "select_task i uid (map (\<lambda>mk. mk db_now) (st_added s'))
         = select_task i uid (map (\<lambda>mk. mk db_now) (st_added s))"
    by (auto simp: push_task_def select_task_def new_task_def split: sum.splits option.splits if_splits)
  from assms show "i \<in> set (st_conflicts s') \<longleftrightarrow> i \<in> set (st_conflicts s)"
    by (auto simp: push_task_def split: sum.splits option.splits if_splits)
qed

lemma push_loop_frame:
  assumes "push_loop utcnow uid us s = Inr s'" and "i \<notin> ts_id ` set us"
  shows "select_task i uid (st_rows s') = select_task i uid (st_rows s)
       \<and> select_task i uid (map (\<lambda>mk. mk db_now) (st_added s'))
           = select_task i uid (map (\<lambda>mk. mk db_now) (st_added s))
       \<and> (i \<in> set (st_conflicts s') \<longleftrightarrow> i \<in> set (st_conflicts s))"
  using assms
proof (induction us arbitrary: s)
  case Nil
  then show ?case by simp
next
  case (Cons u us)
  from Cons.prems(1) obtain s1 where 1: "push_task utcnow uid u s = Inr s1"
    and 2: "push_loop utcnow uid us s1 = Inr s'"
    by (auto split: sum.splits)
  from Cons.prems(2) have u: "ts_id u \<noteq> i" and us: "i \<notin> ts_id ` set us" by auto
  from Cons.IH[OF 2 us] push_task_frame[OF 1 u] show ?case by simp
qed

text \<open>
  A batch in which one record is the only one with its id: what the state holds for that id
  after the loop is what the record's own step made of it.
\<close>

lemma push_loop_record:
  assumes "push_loop utcnow uid (pre @ t # post) s = Inr s'"
    and "ts_id t \<notin> ts_id ` (set pre \<union> set post)"
  shows "\<exists>s1 s2. push_loop utcnow uid pre s = Inr s1 \<and> push_task utcnow uid t s1 = Inr s2
           \<and> push_loop utcnow uid post s2 = Inr s'
           \<and> select_task (ts_id t) uid (st_rows s1) = select_task (ts_id t) uid (st_rows s)
           \<and> select_task (ts_id t) uid (map (\<lambda>mk. mk db_now) (st_added s1))
               = select_task (ts_id t) uid (map (\<lambda>mk. mk db_now) (st_added s))
           \<and> (ts_id t \<in> set (st_conflicts s1) \<longleftrightarrow> ts_id t \<in> set (st_conflicts s))
           \<and> select_task (ts_id t) uid (st_rows s') = select_task (ts_id t) uid (st_rows s2)
           \<and> select_task (ts_id t) uid (map (\<lambda>mk. mk db_now) (st_added s'))
               = select_task (ts_id t) uid (map (\<lambda>mk. mk db_now) (st_added s2))
           \<and> (ts_id t \<in> set (st_conflicts s') \<longleftrightarrow> ts_id t \<in> set (st_conflicts s2))"
proof -
  from assms(1) obtain s1 where 1: "push_loop utcnow uid pre s = Inr s1"
    and r: "push_loop utcnow uid (t # post) s1 = Inr s'"
    by (auto simp: push_loop_append split: sum.splits)
  from r obtain s2 where 2: "push_task utcnow uid t s1 = Inr s2"
    and 3: "push_loop utcnow uid post s2 = Inr s'"
    by (auto split: sum.splits)
  from assms(2) have a: "ts_id t \<notin> ts_id ` set pre" and b: "ts_id t \<notin> ts_id ` set post" by auto
  from push_loop_frame[where db_now = db_now, OF 1 a] push_loop_frame[where db_now = db_now, OF 3 b] 1 2 3
  show ?thesis by blast
qed

lemma push_changes_Inr:
  assumes "push_changes utcnow db_now data uid db = (Inr r, db')"
  shows "\<exists>s. push_loop utcnow uid (tasks data)
               \<lparr>st_rows = db, st_added = [], st_conflicts = [], st_ticks = 0\<rparr> = Inr s
             \<and> commit db_now db s = Inr db'
             \<and> r = \<lparr>success = True, conflicts = st_conflicts s, server_time = utcnow (st_ticks s)\<rparr>"
  using assms by (auto simp: push_changes_def split: sum.splits)

lemma push_changes_Inl:
  "push_changes utcnow db_now data uid db = (Inl e, db') \<Longrightarrow> db' = db"
  by (auto simp: push_changes_def split: sum.splits)

text \<open>
  The table after a request that committed, for a record that is the only one of the batch
  with its id: the three outcomes.
\<close>

lemma push_changes_record:
  assumes "push_changes utcnow db_now data uid db = (Inr r, db')"
    and "tasks data = pre @ t # post"
    and "ts_id t \<notin> ts_id ` (set pre \<union> set post)"
  shows "select_task (ts_id t) uid db = [] \<Longrightarrow>
           select_task (ts_id t) uid db' = [as_stored (new_task uid t db_now)]
           \<and> ts_id t \<notin> set (conflicts r)"
    and "select_task (ts_id t) uid db = [cur] \<Longrightarrow> version cur \<le> ts_version t \<Longrightarrow>
           (\<exists>k. select_task (ts_id t) uid db' = [as_stored (update_existing t (utcnow k) cur)])
           \<and> ts_id t \<notin> set (conflicts r)"
    and "select_task (ts_id t) uid db = [cur] \<Longrightarrow> version cur > ts_version t \<Longrightarrow>
           select_task (ts_id t) uid db' = [cur] \<and> ts_id t \<in> set (conflicts r)"
proof -
  let ?s0 = "\<lparr>st_rows = db, st_added = [], st_conflicts = [], st_ticks = 0\<rparr>"
  let ?i = "ts_id t"
  from push_changes_Inr[OF assms(1)] obtain s where
    loop: "push_loop utcnow uid (tasks data) ?s0 = Inr s"
    and com: "commit db_now db s = Inr db'"
    and r: "r = \<lparr>success = True, conflicts = st_conflicts s, server_time = utcnow (st_ticks s)\<rparr>"
    by blast
  from push_loop_keys[OF loop]
  have keys: "map (\<lambda>r. (task_id r, user_id r)) (st_rows s) = map (\<lambda>r. (task_id r, user_id r)) db"
    by simp
  note sel = commit_select[where i = ?i and uid = uid, OF com keys]
  from loop assms(2) have "push_loop utcnow uid (pre @ t # post) ?s0 = Inr s" by simp
  from push_loop_record[where db_now = db_now, OF this assms(3)] obtain s1 s2 where
    step: "push_task utcnow uid t s1 = Inr s2"
    and r1: "select_task ?i uid (st_rows s1) = select_task ?i uid db"
    and a1: "select_task ?i uid (map (\<lambda>mk. mk db_now) (st_added s1)) = []"
    and c1: "?i \<notin> set (st_conflicts s1)"
    and r2: "select_task ?i uid (st_rows s) = select_task ?i uid (st_rows s2)"
    and a2: "select_task ?i uid (map (\<lambda>mk. mk db_now) (st_added s))
               = select_task ?i uid (map (\<lambda>mk. mk db_now) (st_added s2))"
    and c2: "?i \<in> set (st_conflicts s) \<longleftrightarrow> ?i \<in> set (st_conflicts s2)"
    by (auto simp: select_task_def)
  {
    assume abs: "select_task ?i uid db = []"
    with r1 step have s2: "s2 = s1\<lparr>st_added := st_added s1 @ [new_task uid t]\<rparr>"
      by (simp add: push_task_absent)
    have n: "select_task ?i uid [new_task uid t db_now] = [new_task uid t db_now]"
      by (simp add: select_task_def new_task_def)
    from s2 a1 n have "select_task ?i uid (map (\<lambda>mk. mk db_now) (st_added s2)) = [new_task uid t db_now]"
      by (simp add: select_task_append)
    moreover from s2 r1 abs have "select_task ?i uid (st_rows s2) = []" by simp
    moreover from s2 c1 have "?i \<notin> set (st_conflicts s2)" by simp
    ultimately show "select_task ?i uid db' = [as_stored (new_task uid t db_now)]
           \<and> ?i \<notin> set (conflicts r)"
      using sel abs r2 a2 c2 r by simp
  }
  {
    assume ex: "select_task ?i uid db = [cur]" and le: "version cur \<le> ts_version t"
    from ex r1 have e1: "select_task ?i uid (st_rows s1) = [cur]" by simp
    with step le have s2: "s2 = s1\<lparr>st_rows := map (\<lambda>r. if task_id r = ?i \<and> user_id r = uid
                                  then update_existing t (utcnow (st_ticks s1)) r else r) (st_rows s1),
                   st_ticks := Suc (st_ticks s1)\<rparr>"
      by (simp add: push_task_existing)
    from s2 select_after_update[OF e1]
    have u: "select_task ?i uid (st_rows s2) = [update_existing t (utcnow (st_ticks s1)) cur]"
      by simp
    have ne: "update_existing t (utcnow (st_ticks s1)) cur \<noteq> cur"
    proof
      assume "update_existing t (utcnow (st_ticks s1)) cur = cur"
      then have "version (update_existing t (utcnow (st_ticks s1)) cur) = version cur" by simp
      with le show False by simp
    qed
    from s2 a1 have "select_task ?i uid (map (\<lambda>mk. mk db_now) (st_added s2)) = []" by simp
    moreover from s2 c1 have "?i \<notin> set (st_conflicts s2)" by simp
    ultimately have "select_task ?i uid db' = [as_stored (update_existing t (utcnow (st_ticks s1)) cur)]
           \<and> ?i \<notin> set (conflicts r)"
      using sel ex u ne r2 a2 c2 r by simp
    then show "(\<exists>k. select_task ?i uid db' = [as_stored (update_existing t (utcnow k) cur)])
           \<and> ?i \<notin> set (conflicts r)" by blast
  }
  {
    assume ex: "select_task ?i uid db = [cur]" and gt: "version cur > ts_version t"
    from ex r1 have e1: "select_task ?i uid (st_rows s1) = [cur]" by simp
    with step gt have s2: "s2 = s1\<lparr>st_conflicts := st_conflicts s1 @ [?i]\<rparr>"
      by (simp add: push_task_existing)
    from s2 e1 have "select_task ?i uid (st_rows s2) = [cur]" by simp
    moreover from s2 a1 have "select_task ?i uid (map (\<lambda>mk. mk db_now) (st_added s2)) = []" by simp
    moreover from s2 have "?i \<in> set (st_conflicts s2)" by simp
    ultimately show "select_task ?i uid db' = [cur] \<and> ?i \<in> set (conflicts r)"
      using sel ex r2 a2 c2 r by simp
  }
qed

lemma fits_push_rows:
  "fits_push t \<Longrightarrow> fits_columns (new_task uid t now)"
  "fits_push t \<Longrightarrow> fits_columns (update_existing t now r)"
  by (simp_all add: fits_push_def fits_columns_new_task fits_columns_update_existing)

text \<open>The request that pushes one record.\<close>

lemma push_changes_single_existing:
  assumes "select_task (ts_id t) uid db = [cur]"
  shows "push_changes utcnow db_now \<lparr>tasks = [t], last_sync_at = l\<rparr> uid db =
     (if version cur > ts_version t
      then (Inr \<lparr>success = True, conflicts = [ts_id t], server_time = utcnow 0\<rparr>, db)
      else if fits_columns (update_existing t (utcnow 0) cur)
      then (Inr \<lparr>success = True, conflicts = [], server_time = utcnow 1\<rparr>,
            map (\<lambda>r. if task_id r = ts_id t \<and> user_id r = uid
                     then as_stored (update_existing t (utcnow 0) r) else r) db)
      else (Inl DBAPIError, db))"
proof (cases "version cur > ts_version t")
  case True
  with assms show ?thesis
    by (simp add: push_changes_def push_task_existing commit_def flush_updates_same)
next
  case False
  let ?f = "\<lambda>r. if task_id r = ts_id t \<and> user_id r = uid
                then update_existing t (utcnow 0) r else r"
  have only: "r = cur" if "r \<in> set db" "task_id r = ts_id t" "user_id r = uid" for r
  proof -
    from that have "r \<in> set (select_task (ts_id t) uid db)" by (simp add: select_task_def)
    with assms show ?thesis by simp
  qed
  have ne: "update_existing t (utcnow 0) r \<noteq> r" if "r \<in> set db" "task_id r = ts_id t" "user_id r = uid" for r
  proof
    assume "update_existing t (utcnow 0) r = r"
    then have "version (update_existing t (utcnow 0) r) = version r" by simp
    with only[OF that] False show False by simp
  qed
  from select_task_single[OF assms] have c: "cur \<in> set db" "task_id cur = ts_id t" "user_id cur = uid"
    by simp_all
  have fr: "fits_columns (update_existing t (utcnow 0) r)
            = fits_columns (update_existing t (utcnow 0) cur)" for r
    by (simp add: fits_columns_update_existing)
  have all: "list_all (\<lambda>r. ?f r = r \<or> fits_columns (?f r)) db
             \<longleftrightarrow> fits_columns (update_existing t (utcnow 0) cur)"
  proof
    assume "list_all (\<lambda>r. ?f r = r \<or> fits_columns (?f r)) db"
    with c(1) have "?f cur = cur \<or> fits_columns (?f cur)" by (simp add: list_all_iff)
    moreover from c have "?f cur = update_existing t (utcnow 0) cur" by simp
    moreover from ne[OF c] have "update_existing t (utcnow 0) cur \<noteq> cur" .
    ultimately show "fits_columns (update_existing t (utcnow 0) cur)" by simp
  next
    assume "fits_columns (update_existing t (utcnow 0) cur)"
    then have "?f r = r \<or> fits_columns (?f r)" for r
      using fr[of r] by (cases "task_id r = ts_id t \<and> user_id r = uid") simp_all
    then show "list_all (\<lambda>r. ?f r = r \<or> fits_columns (?f r)) db"
      unfolding list_all_iff by blast
  qed
  have m: "map (\<lambda>r. if ?f r = r then r else as_stored (?f r)) db
           = map (\<lambda>r. if task_id r = ts_id t \<and> user_id r = uid
                     then as_stored (update_existing t (utcnow 0) r) else r) db"
  proof (rule map_cong[OF refl])
    fix r assume "r \<in> set db"
    show "(if ?f r = r then r else as_stored (?f r))
               = (if task_id r = ts_id t \<and> user_id r = uid
                  then as_stored (update_existing t (utcnow 0) r) else r)"
    proof (cases "task_id r = ts_id t \<and> user_id r = uid")
      case True
      with ne[of r] \<open>r \<in> set db\<close> have "update_existing t (utcnow 0) r \<noteq> r" by blast
      with True show ?thesis by simp
    next
      case False
      then have "?f r = r" by auto
      with False show ?thesis by auto
    qed
  qed
  let ?s1 = "\<lparr>st_rows = map ?f db, st_added = [], st_conflicts = [], st_ticks = Suc 0\<rparr>"
  have loop: "push_loop utcnow uid [t] \<lparr>st_rows = db, st_added = [], st_conflicts = [], st_ticks = 0\<rparr>
              = Inr ?s1"
    using False assms by (simp add: push_task_existing)
  have fu: "flush_updates (zip db (map ?f db))
            = (if fits_columns (update_existing t (utcnow 0) cur)
               then Inr (map (\<lambda>r. if task_id r = ts_id t \<and> user_id r = uid
                                then as_stored (update_existing t (utcnow 0) r) else r) db)
               else Inl DBAPIError)"
    by (simp only: flush_updates_map all m)
  have com: "commit db_now db ?s1
            = (if fits_columns (update_existing t (utcnow 0) cur)
               then Inr (map (\<lambda>r. if task_id r = ts_id t \<and> user_id r = uid
                                then as_stored (update_existing t (utcnow 0) r) else r) db)
               else Inl DBAPIError)"
    unfolding commit_def by (simp only: push_state.select_convs fu) simp
  show ?thesis
    unfolding push_changes_def
    by (simp add: loop com False del: push_loop.simps)
qed





text \<open>No request lowers the version of a row of the table.\<close>

lemma flushed_versions:
  "list_all2 (\<lambda>a b. task_id b = task_id a \<and> user_id b = user_id a \<and> version a \<le> version b) olds news
   \<Longrightarrow> list_all2 (\<lambda>a b. task_id b = task_id a \<and> user_id b = user_id a \<and> version a \<le> version b) olds
        (map (\<lambda>(old, new). if new = old then old else as_stored new) (zip olds news))"
  by (induction olds news rule: list_all2_induct) auto

lemma push_changes_version_mono:
  "list_all2 (\<lambda>a b. task_id b = task_id a \<and> user_id b = user_id a \<and> version a \<le> version b) db
     (take (length db) (snd (push_changes utcnow db_now data uid db)))"
proof (cases "push_changes utcnow db_now data uid db")
  case (Pair res db')
  show ?thesis
  proof (cases res)
    case (Inl e)
    with Pair push_changes_Inl have "db' = db" by blast
    with Pair show ?thesis by (simp add: list_all2_same)
  next
    case (Inr r)
    with Pair push_changes_Inr obtain s where
      1: "push_loop utcnow uid (tasks data) \<lparr>st_rows = db, st_added = [], st_conflicts = [], st_ticks = 0\<rparr> = Inr s"
      and 2: "commit db_now db s = Inr db'" by blast
    from push_loop_version_mono[OF 1]
    have m: "list_all2 (\<lambda>a b. task_id b = task_id a \<and> user_id b = user_id a \<and> version a \<le> version b)
               db (st_rows s)" by simp
    then have "length (st_rows s) = length db" by (simp add: list_all2_lengthD)
    from commit_rows(1)[OF 2 this] flushed_versions[OF m] Pair show ?thesis by simp
  qed
qed

text \<open>A batch whose records all fit the columns leaves only rows that fit to be written.\<close>

lemma list_all_zip_map:
  assumes "list_all (\<lambda>(old, new). new = old \<or> Q new) (zip xs ys)"
    and "\<And>y. f y = y \<or> Q (f y)"
  shows "list_all (\<lambda>(old, new). new = old \<or> Q new) (zip xs (map f ys))"
  using assms(1)
proof (induction xs ys rule: list_induct2')
  case (4 x xs y ys)
  then have "y = x \<or> Q y" and "list_all (\<lambda>(old, new). new = old \<or> Q new) (zip xs (map f ys))"
    by simp_all
  moreover from assms(2)[of y] this(1) have "f y = x \<or> Q (f y)" by auto
  ultimately show ?case by simp
qed simp_all

lemma flushed_ids:
  "length olds = length news \<Longrightarrow>
   map task_id (map (\<lambda>(old, new). if new = old then old else as_stored new) (zip olds news))
     = map task_id news"
  by (induction olds news rule: list_induct2) auto

lemma push_task_fits:
  assumes "push_task utcnow uid t s = Inr s'" and "fits_push t"
    and "list_all (\<lambda>(old, new). new = old \<or> fits_columns new) (zip db (st_rows s))"
    and "list_all (\<lambda>mk. fits_columns (mk db_now)) (st_added s)"
  shows "list_all (\<lambda>(old, new). new = old \<or> fits_columns new) (zip db (st_rows s'))
       \<and> list_all (\<lambda>mk. fits_columns (mk db_now)) (st_added s')"
proof -
  have "list_all (\<lambda>(old, new). new = old \<or> fits_columns new)
          (zip db (map (\<lambda>r. if task_id r = ts_id t \<and> user_id r = uid
                          then update_existing t now r else r) (st_rows s)))" for now
    using assms(3)
  proof (rule list_all_zip_map)
    fix y
    show "(if task_id y = ts_id t \<and> user_id y = uid then update_existing t now y else y) = y
          \<or> fits_columns (if task_id y = ts_id t \<and> user_id y = uid then update_existing t now y else y)"
      using fits_push_rows(2)[OF assms(2)] by simp
  qed
  with assms show ?thesis
    by (auto simp: push_task_def fits_push_rows split: sum.splits option.splits if_splits)
qed

lemma push_loop_fits:
  assumes "push_loop utcnow uid ts s = Inr s'" and "\<forall>t\<in>set ts. fits_push t"
    and "list_all (\<lambda>(old, new). new = old \<or> fits_columns new) (zip db (st_rows s))"
    and "list_all (\<lambda>mk. fits_columns (mk db_now)) (st_added s)"
  shows "list_all (\<lambda>(old, new). new = old \<or> fits_columns new) (zip db (st_rows s'))
       \<and> list_all (\<lambda>mk. fits_columns (mk db_now)) (st_added s')"
  using assms
proof (induction ts arbitrary: s)
  case Nil
  then show ?case by simp
next
  case (Cons t ts)
  from Cons.prems(1) obtain s1 where 1: "push_task utcnow uid t s = Inr s1"
    and 2: "push_loop utcnow uid ts s1 = Inr s'"
    by (auto split: sum.splits)
  from Cons.prems(2) have f: "fits_push t" and fs: "\<forall>t\<in>set ts. fits_push t" by simp_all
  from push_task_fits[OF 1 f Cons.prems(3,4)] Cons.IH[OF 2 fs] show ?case by blast
qed

text \<open>An id that another owner holds: the commit of the batch fails.\<close>

lemma push_changes_cross_owner:
  assumes "distinct (map task_id db)" and "t \<in> set (tasks data)"
    and "r \<in> set db" and "task_id r = ts_id t" and "user_id r \<noteq> uid"
  shows "select_task (ts_id t) uid db = []"
    and "\<exists>e. push_changes utcnow db_now data uid db = (Inl e, db)"
    and "\<forall>u\<in>set (tasks data). fits_push u \<Longrightarrow>
         push_changes utcnow db_now data uid db = (Inl IntegrityError, db)"
proof -
  have "\<And>x. x \<in> set db \<Longrightarrow> task_id x = task_id r \<Longrightarrow> x = r"
    using assms(1,3) by (meson distinct_map inj_onD)
  then show sel: "select_task (ts_id t) uid db = []"
    using assms(4,5) by (auto simp: select_task_def filter_empty_conv)
  let ?s0 = "\<lparr>st_rows = db, st_added = [], st_conflicts = [], st_ticks = 0\<rparr>"
  from assms(1) have "distinct (map task_id (st_rows ?s0))" by simp
  from push_loop_total[OF this] obtain s where 1: "push_loop utcnow uid (tasks data) ?s0 = Inr s"
    by blast
  from sel have "select_task (ts_id t) uid (st_rows ?s0) = []" by simp
  from push_loop_adds_absent[OF 1 assms(2) this] have "new_task uid t \<in> set (st_added s)" .
  then have n: "new_task uid t db_now \<in> set (map (\<lambda>mk. mk db_now) (st_added s))" by force
  have len: "length (st_rows s) = length db"
    using push_loop_keys[OF 1] keys_imp_length by fastforce
  have coll: "\<exists>n\<in>set (map (\<lambda>mk. mk db_now) (st_added s)). task_id n \<in> set (map task_id rows)"
    if "flush_updates (zip db (st_rows s)) = Inr rows" for rows
  proof -
    from that have "rows = map (\<lambda>(old, new). if new = old then old else as_stored new) (zip db (st_rows s))"
      by (simp add: flush_updates_eq split: if_splits)
    then have "map task_id rows = map task_id (st_rows s)"
      using flushed_ids[of db "st_rows s"] len by simp
    also have "\<dots> = map task_id db"
      using push_loop_keys[OF 1] keys_imp_ids by fastforce
    finally have "map task_id rows = map task_id db" .
    moreover have "task_id (new_task uid t db_now) \<in> set (map task_id db)"
      using assms(3,4) by (simp add: new_task_def) (metis imageI)
    ultimately show ?thesis using n by metis
  qed
  show "\<exists>e. push_changes utcnow db_now data uid db = (Inl e, db)"
  proof (cases "flush_updates (zip db (st_rows s))")
    case (Inl e)
    with 1 show ?thesis by (simp add: push_changes_def commit_def)
  next
    case (Inr rows)
    from flush_inserts_collision(1)[OF coll[OF Inr]] obtain e where
      "flush_inserts rows (map (\<lambda>mk. mk db_now) (st_added s)) = Inl e" by blast
    with 1 Inr show ?thesis by (simp add: push_changes_def commit_def)
  qed
  assume fits: "\<forall>u\<in>set (tasks data). fits_push u"
  have "list_all (\<lambda>(old, new). new = old \<or> fits_columns new) (zip db db)"
    by (induction db) simp_all
  then have "list_all (\<lambda>(old, new). new = old \<or> fits_columns new) (zip db (st_rows ?s0))"
    by simp
  moreover have "list_all (\<lambda>mk. fits_columns (mk db_now)) (st_added ?s0)" by simp
  ultimately have inv: "list_all (\<lambda>(old, new). new = old \<or> fits_columns new) (zip db (st_rows s))
       \<and> list_all (\<lambda>mk. fits_columns (mk db_now)) (st_added s)"
    using push_loop_fits[OF 1 fits] by blast
  then obtain rows where u: "flush_updates (zip db (st_rows s)) = Inr rows"
    by (simp add: flush_updates_eq)
  from inv have "list_all fits_columns (map (\<lambda>mk. mk db_now) (st_added s))"
    by (simp add: list_all_iff)
  from flush_inserts_collision(2)[OF coll[OF u] this] 1 u
  show "push_changes utcnow db_now data uid db = (Inl IntegrityError, db)"
    by (simp add: push_changes_def commit_def)
qed







section \<open>Properties of the handlers\<close>

lemmas sample_defs = sample_row_def sample_push_def utc_clock_def
lemmas column_defs = fits_columns_def as_stored_def write_row_def int32_def text_value_def
  varchar_value_def
lemmas push_defs = push_changes_def push_task_def commit_def select_task_def
  update_existing_def new_task_def

subsection \<open>Pushing a record that the caller already has\<close>




text \<open>
  C2. A pushed record whose id exists for the caller with a stored version greater than the
  pushed one is a conflict: the step appends the id to the conflicts and changes nothing else
  in the state, and the request that pushes the record alone answers with that one conflict
  and leaves the whole table as it was.
\<close>

theorem push_existing_older_conflicts:
  assumes "select_task (ts_id t) uid db = [cur]"
    and "version cur > ts_version t"
    and "st_rows s = db"
  shows "push_task utcnow uid t s = Inr (s\<lparr>st_conflicts := st_conflicts s @ [ts_id t]\<rparr>)
       \<and> push_changes utcnow db_now \<lparr>tasks = [t], last_sync_at = l\<rparr> uid db
           = (Inr \<lparr>success = True, conflicts = [ts_id t], server_time = utcnow 0\<rparr>, db)"
  using assms by (simp add: push_task_existing push_changes_single_existing)

theorem push_existing_older_conflicts_witness:
  "select_task (ts_id (sample_push 1 1)) 7 [sample_row 1 7 3 500] = [sample_row 1 7 3 500]
   \<and> version (sample_row 1 7 3 500) > ts_version (sample_push 1 1)
   \<and> push_changes utc_clock 2000 \<lparr>tasks = [sample_push 1 1], last_sync_at = None\<rparr> 7
         [sample_row 1 7 3 500]
       = (Inr \<lparr>success = True, conflicts = [1], server_time = 1000\<rparr>, [sample_row 1 7 3 500])"
proof -
  have h1: "select_task (ts_id (sample_push 1 1)) 7 [sample_row 1 7 3 500] = [sample_row 1 7 3 500]"
    by (simp add: select_task_def sample_defs)
  have h2: "version (sample_row 1 7 3 500) > ts_version (sample_push 1 1)"
    by (simp add: sample_defs)
  have h3: "st_rows \<lparr>st_rows = [sample_row 1 7 3 500], st_added = [], st_conflicts = [], st_ticks = 0\<rparr>
            = [sample_row 1 7 3 500]" by simp
  from push_existing_older_conflicts[where utcnow = utc_clock and db_now = 2000 and l = None,
      OF h1 h2 h3]
  show ?thesis using h1 h2 by (simp add: sample_push_def utc_clock_def)
qed

subsection \<open>Pushing a record that the caller does not have\<close>




subsection \<open>The version after an accepted update\<close>

text \<open>
  A stored version 1 and a pushed version 5: the update is accepted and the stored version is
  then 6, which is not the previously stored version plus one.
\<close>

theorem accepted_update_not_plus_one_counterexample:
  "select_task (ts_id (sample_push 1 5)) 7 [sample_row 1 7 1 500] = [sample_row 1 7 1 500]
   \<and> version (sample_row 1 7 1 500) \<le> ts_version (sample_push 1 5)
   \<and> fst (push_changes utc_clock 2000 \<lparr>tasks = [sample_push 1 5], last_sync_at = None\<rparr> 7
             [sample_row 1 7 1 500])
       = Inr \<lparr>success = True, conflicts = [], server_time = 1001\<rparr>
   \<and> map version (snd (push_changes utc_clock 2000 \<lparr>tasks = [sample_push 1 5], last_sync_at = None\<rparr> 7
             [sample_row 1 7 1 500])) = [6]
   \<and> (6::int) \<noteq> version (sample_row 1 7 1 500) + 1"
  by (simp add: push_defs column_defs sample_defs)

text \<open>
  C4, amended. An accepted update of an existing record stores the pushed version plus one.
  Relative to the previously stored version this is an increase by
  \<open>(incoming - stored) + 1\<close>, at least one, and exactly one if and only if the pushed
  version equals the stored one. This holds for the step on the session's row, and for the
  row of the table after any request that commits, for a record that is the only one of its
  batch with its id.
\<close>

theorem accepted_update_version:
  assumes "select_task (ts_id t) uid db = [cur]"
    and "version cur \<le> ts_version t"
  shows "(\<forall>s. select_task (ts_id t) uid (st_rows s) = [cur] \<longrightarrow>
            (\<exists>s' new. push_task utcnow uid t s = Inr s'
               \<and> select_task (ts_id t) uid (st_rows s') = [new]
               \<and> version new = ts_version t + 1
               \<and> version new - version cur = (ts_version t - version cur) + 1
               \<and> (version new = version cur + 1 \<longleftrightarrow> ts_version t = version cur)))
       \<and> (\<forall>data pre post r db'.
            tasks data = pre @ t # post \<and> ts_id t \<notin> ts_id ` (set pre \<union> set post)
            \<and> push_changes utcnow db_now data uid db = (Inr r, db') \<longrightarrow>
              (\<exists>new. select_task (ts_id t) uid db' = [new]
                 \<and> version new = ts_version t + 1
                 \<and> version new - version cur = (ts_version t - version cur) + 1
                 \<and> (version new = version cur + 1 \<longleftrightarrow> ts_version t = version cur)))"
proof -
  have a: "\<forall>s. select_task (ts_id t) uid (st_rows s) = [cur] \<longrightarrow>
            (\<exists>s' new. push_task utcnow uid t s = Inr s'
               \<and> select_task (ts_id t) uid (st_rows s') = [new]
               \<and> version new = ts_version t + 1
               \<and> version new - version cur = (ts_version t - version cur) + 1
               \<and> (version new = version cur + 1 \<longleftrightarrow> ts_version t = version cur))"
    using assms(2) by (auto simp: push_task_existing select_after_update)
  have b: "\<forall>data pre post r db'.
            tasks data = pre @ t # post \<and> ts_id t \<notin> ts_id ` (set pre \<union> set post)
            \<and> push_changes utcnow db_now data uid db = (Inr r, db') \<longrightarrow>
              (\<exists>new. select_task (ts_id t) uid db' = [new]
                 \<and> version new = ts_version t + 1
                 \<and> version new - version cur = (ts_version t - version cur) + 1
                 \<and> (version new = version cur + 1 \<longleftrightarrow> ts_version t = version cur))"
  proof (intro allI impI)
    fix data pre post r db'
    assume h: "tasks data = pre @ t # post \<and> ts_id t \<notin> ts_id ` (set pre \<union> set post)
            \<and> push_changes utcnow db_now data uid db = (Inr r, db')"
    then have 1: "push_changes utcnow db_now data uid db = (Inr r, db')"
      and 2: "tasks data = pre @ t # post"
      and 3: "ts_id t \<notin> ts_id ` (set pre \<union> set post)" by simp_all
    from push_changes_record(2)[OF 1 2 3 assms] obtain k where
      "select_task (ts_id t) uid db' = [as_stored (update_existing t (utcnow k) cur)]" by blast
    then show "\<exists>new. select_task (ts_id t) uid db' = [new]
                 \<and> version new = ts_version t + 1
                 \<and> version new - version cur = (ts_version t - version cur) + 1
                 \<and> (version new = version cur + 1 \<longleftrightarrow> ts_version t = version cur)"
      by auto
  qed
  from a b show ?thesis by (intro conjI)
qed

theorem accepted_update_version_witness:
  "select_task (ts_id (sample_push 1 5)) 7 [sample_row 1 7 1 500] = [sample_row 1 7 1 500]
   \<and> version (sample_row 1 7 1 500) \<le> ts_version (sample_push 1 5)
   \<and> tasks \<lparr>tasks = [sample_push 2 1, sample_push 1 5], last_sync_at = None\<rparr>
       = [sample_push 2 1] @ sample_push 1 5 # []
   \<and> ts_id (sample_push 1 5) \<notin> ts_id ` (set [sample_push 2 1] \<union> set [])
   \<and> push_changes utc_clock 2000 \<lparr>tasks = [sample_push 2 1, sample_push 1 5], last_sync_at = None\<rparr> 7
         [sample_row 1 7 1 500]
       = (Inr \<lparr>success = True, conflicts = [], server_time = 1001\<rparr>,
          [(sample_row 1 7 1 500)\<lparr>version := 6, modified_at := 1000\<rparr>, sample_row 2 7 1 2000])
   \<and> (\<exists>new. select_task (ts_id (sample_push 1 5)) 7
               [(sample_row 1 7 1 500)\<lparr>version := 6, modified_at := 1000\<rparr>, sample_row 2 7 1 2000]
             = [new]
          \<and> version new = 6 \<and> version new - version (sample_row 1 7 1 500) = 5)
   \<and> (\<exists>s' new. push_task utc_clock 7 (sample_push 1 5)
                   \<lparr>st_rows = [sample_row 1 7 1 500], st_added = [], st_conflicts = [], st_ticks = 0\<rparr>
                 = Inr s'
          \<and> select_task (ts_id (sample_push 1 5)) 7 (st_rows s') = [new]
          \<and> version new = ts_version (sample_push 1 5) + 1)"
proof -
  let ?s0 = "\<lparr>st_rows = [sample_row 1 7 1 500], st_added = [], st_conflicts = [], st_ticks = 0\<rparr>"
  let ?db = "[sample_row 1 7 1 500]"
  let ?data = "\<lparr>tasks = [sample_push 2 1, sample_push 1 5], last_sync_at = None\<rparr>"
  let ?db' = "[(sample_row 1 7 1 500)\<lparr>version := 6, modified_at := 1000\<rparr>, sample_row 2 7 1 2000]"
  let ?r = "\<lparr>success = True, conflicts = [], server_time = 1001\<rparr>"
  have h1: "select_task (ts_id (sample_push 1 5)) 7 ?db = [sample_row 1 7 1 500]"
    by (simp add: select_task_def sample_defs)
  have h2: "version (sample_row 1 7 1 500) \<le> ts_version (sample_push 1 5)"
    by (simp add: sample_defs)
  have h3: "tasks ?data = [sample_push 2 1] @ sample_push 1 5 # []" by simp
  have h4: "ts_id (sample_push 1 5) \<notin> ts_id ` (set [sample_push 2 1] \<union> set [])"
    by (simp add: sample_defs)
  have h5: "push_changes utc_clock 2000 ?data 7 ?db = (Inr ?r, ?db')"
    by (simp add: push_defs column_defs sample_defs)
  note acc = accepted_update_version[where utcnow = utc_clock and db_now = 2000, OF h1 h2]
  from h1 have "select_task (ts_id (sample_push 1 5)) 7 (st_rows ?s0) = [sample_row 1 7 1 500]"
    by simp
  with acc have st: "\<exists>s' new. push_task utc_clock 7 (sample_push 1 5) ?s0 = Inr s'
          \<and> select_task (ts_id (sample_push 1 5)) 7 (st_rows s') = [new]
          \<and> version new = ts_version (sample_push 1 5) + 1" by blast
  from acc h3 h4 h5
  obtain new where "select_task (ts_id (sample_push 1 5)) 7 ?db' = [new]"
    "version new = ts_version (sample_push 1 5) + 1"
    "version new - version (sample_row 1 7 1 500)
       = (ts_version (sample_push 1 5) - version (sample_row 1 7 1 500)) + 1" by blast
  then have "\<exists>new. select_task (ts_id (sample_push 1 5)) 7 ?db' = [new]
          \<and> version new = 6 \<and> version new - version (sample_row 1 7 1 500) = 5"
    by (simp add: sample_defs)
  with h1 h2 h3 h4 h5 st show ?thesis by blast
qed

subsection \<open>An id held by another owner\<close>

text \<open>
  Row 2 belongs to owner 9; owner 7 pushes a record with id 2. The lookup finds nothing, the
  INSERT violates the primary key, the request ends in \<open>IntegrityError\<close>: owner 7 has
  no record afterwards, and the table is unchanged.
\<close>

theorem cross_owner_push_counterexample:
  "select_task (ts_id (sample_push 2 4)) 7 [sample_row 2 9 3 500] = []
   \<and> push_changes utc_clock 2000 \<lparr>tasks = [sample_push 2 4], last_sync_at = None\<rparr> 7
         [sample_row 2 9 3 500]
       = (Inl IntegrityError, [sample_row 2 9 3 500])
   \<and> select_task 2 7 (snd (push_changes utc_clock 2000
         \<lparr>tasks = [sample_push 2 4], last_sync_at = None\<rparr> 7 [sample_row 2 9 3 500])) = []"
  by (simp add: push_defs column_defs sample_defs)

text \<open>
  C5, amended. When the pushed id exists in the table under a different owner, the lookup
  scoped by (id, owner) treats the record as absent and the step adds a new object for the
  caller to the session without touching any row. As id alone is the primary key, the commit
  of any batch that contains such a record fails: no record is created, and the table, the
  other owner's row included, stays as it was. The exception is \<open>IntegrityError\<close> when
  the values of the batch fit the columns (otherwise a statement may fail on a value first).
\<close>

theorem cross_owner_push_fails_on_primary_key:
  assumes "distinct (map task_id db)"
    and "t \<in> set (tasks data)"
    and "r \<in> set db" and "task_id r = ts_id t" and "user_id r \<noteq> uid"
  shows "select_task (ts_id t) uid db = []
       \<and> push_task utcnow uid t \<lparr>st_rows = db, st_added = [], st_conflicts = [], st_ticks = 0\<rparr>
           = Inr \<lparr>st_rows = db, st_added = [new_task uid t], st_conflicts = [], st_ticks = 0\<rparr>
       \<and> (\<exists>e. push_changes utcnow db_now data uid db = (Inl e, db))
       \<and> (list_all fits_push (tasks data) \<longrightarrow>
            push_changes utcnow db_now data uid db = (Inl IntegrityError, db))"
  using push_changes_cross_owner[OF assms] by (simp add: push_task_absent list_all_iff)

theorem cross_owner_push_fails_on_primary_key_witness:
  "distinct (map task_id [sample_row 2 9 3 500])
   \<and> sample_push 2 4 \<in> set (tasks \<lparr>tasks = [sample_push 2 4], last_sync_at = None\<rparr>)
   \<and> sample_row 2 9 3 500 \<in> set [sample_row 2 9 3 500]
   \<and> task_id (sample_row 2 9 3 500) = ts_id (sample_push 2 4)
   \<and> user_id (sample_row 2 9 3 500) \<noteq> 7
   \<and> list_all fits_push (tasks \<lparr>tasks = [sample_push 2 4], last_sync_at = None\<rparr>)
   \<and> push_changes utc_clock 2000 \<lparr>tasks = [sample_push 2 4], last_sync_at = None\<rparr> 7
         [sample_row 2 9 3 500]
       = (Inl IntegrityError, [sample_row 2 9 3 500])"
proof -
  have h1: "distinct (map task_id [sample_row 2 9 3 500])" by simp
  have h2: "sample_push 2 4 \<in> set (tasks \<lparr>tasks = [sample_push 2 4], last_sync_at = None\<rparr>)" by simp
  have h3: "sample_row 2 9 3 500 \<in> set [sample_row 2 9 3 500]" by simp
  have h4: "task_id (sample_row 2 9 3 500) = ts_id (sample_push 2 4)" by (simp add: sample_defs)
  have h5: "user_id (sample_row 2 9 3 500) \<noteq> 7" by (simp add: sample_defs)
  have h6: "list_all fits_push (tasks \<lparr>tasks = [sample_push 2 4], last_sync_at = None\<rparr>)"
    by (simp add: fits_push_def column_defs sample_defs)
  from cross_owner_push_fails_on_primary_key[where utcnow = utc_clock and db_now = 2000,
      OF h1 h2 h3 h4 h5] h6
  have "push_changes utc_clock 2000 \<lparr>tasks = [sample_push 2 4], last_sync_at = None\<rparr> 7
         [sample_row 2 9 3 500] = (Inl IntegrityError, [sample_row 2 9 3 500])" by blast
  with h1 h2 h3 h4 h5 h6 show ?thesis by blast
qed

subsection \<open>The response to a batch\<close>



subsection \<open>Pulling\<close>

text \<open>
  C7. The records of a pull are, with multiplicity, the conversions of the caller's rows whose
  \<open>modified_at\<close> is strictly greater than \<open>since\<close> when a cursor is given (a row modified
  exactly at the cursor is left out), and of all the caller's rows when none is given. The
  filter does not look at \<open>is_deleted\<close>. The conversion of a row carries its id, title,
  notes, due date, priority, completion time, deletion flag and version, so tombstones are
  delivered as records with the flag set.
\<close>

theorem pull_returns_exactly_modified_after:
  "mset (pull_tasks (pull_changes now since uid db))
     = image_mset to_sync
         (filter_mset (\<lambda>r. user_id r = uid
                            \<and> (case since of Some s \<Rightarrow> s < modified_at r | None \<Rightarrow> True))
            (mset db))
   \<and> set (pull_tasks (pull_changes now (Some s) uid db))
       = to_sync ` {r \<in> set db. user_id r = uid \<and> s < modified_at r}
   \<and> set (pull_tasks (pull_changes now None uid db)) = to_sync ` {r \<in> set db. user_id r = uid}
   \<and> ts_id (to_sync r) = task_id r
   \<and> ts_title (to_sync r) = title r
   \<and> ts_notes (to_sync r) = task_notes r
   \<and> ts_due_date (to_sync r) = due_date r
   \<and> ts_priority (to_sync r) = priority r
   \<and> ts_completed_at (to_sync r) = completed_at r
   \<and> ts_is_deleted (to_sync r) = is_deleted r
   \<and> ts_version (to_sync r) = version r"
proof -
  have m: "\<And>since. mset (pull_tasks (pull_changes now since uid db))
     = image_mset to_sync
         (filter_mset (\<lambda>r. user_id r = uid
                            \<and> (case since of Some s \<Rightarrow> s < modified_at r | None \<Rightarrow> True))
            (mset db))"
    by (simp add: pull_changes_def pull_rows_mset)
  have "set_mset (mset (pull_tasks (pull_changes now (Some s) uid db)))
       = to_sync ` {r \<in> set db. user_id r = uid \<and> s < modified_at r}"
    unfolding m by auto
  moreover have "set_mset (mset (pull_tasks (pull_changes now None uid db)))
       = to_sync ` {r \<in> set db. user_id r = uid}"
    unfolding m by auto
  ultimately show ?thesis using m[of since] by (simp add: to_sync_def)
qed

theorem pull_returns_exactly_modified_after_witness:
  "pull_tasks (pull_changes 3000 (Some 500) 7
       [sample_row 1 7 1 500, (sample_row 2 7 2 700)\<lparr>is_deleted := True\<rparr>, sample_row 3 8 1 900])
     = [(sample_push 2 2)\<lparr>ts_is_deleted := True\<rparr>]
   \<and> set (pull_tasks (pull_changes 3000 (Some 500) 7
       [sample_row 1 7 1 500, (sample_row 2 7 2 700)\<lparr>is_deleted := True\<rparr>, sample_row 3 8 1 900]))
     = to_sync ` {r \<in> set [sample_row 1 7 1 500, (sample_row 2 7 2 700)\<lparr>is_deleted := True\<rparr>,
                             sample_row 3 8 1 900]. user_id r = 7 \<and> 500 < modified_at r}
   \<and> ts_version (to_sync ((sample_row 2 7 2 700)\<lparr>is_deleted := True\<rparr>)) = 2"
proof -
  have "pull_tasks (pull_changes 3000 (Some 500) 7
       [sample_row 1 7 1 500, (sample_row 2 7 2 700)\<lparr>is_deleted := True\<rparr>, sample_row 3 8 1 900])
     = [(sample_push 2 2)\<lparr>ts_is_deleted := True\<rparr>]"
    by (simp add: pull_changes_def pull_rows_def order_by_desc_def to_sync_def sample_defs)
  moreover from pull_returns_exactly_modified_after[of 3000 "Some 500" 7
      "[sample_row 1 7 1 500, (sample_row 2 7 2 700)\<lparr>is_deleted := True\<rparr>, sample_row 3 8 1 900]" 500
      "(sample_row 2 7 2 700)\<lparr>is_deleted := True\<rparr>"]
  have "ts_version (to_sync ((sample_row 2 7 2 700)\<lparr>is_deleted := True\<rparr>)) = 2"
    by (simp add: sample_defs)
  ultimately show ?thesis
    using pull_returns_exactly_modified_after[of 3000 "Some 500" 7
      "[sample_row 1 7 1 500, (sample_row 2 7 2 700)\<lparr>is_deleted := True\<rparr>, sample_row 3 8 1 900]" 500]
    by blast
qed

text \<open>
  C8. The records of a pull are the conversions, in order, of rows sorted by descending
  \<open>modified_at\<close>: the most recently modified row comes first.
\<close>

theorem pull_ordered_by_modified_at_desc:
  "pull_tasks (pull_changes now since uid db) = map to_sync (pull_rows since uid db)
   \<and> sorted_wrt (\<lambda>a b. modified_at b \<le> modified_at a) (pull_rows since uid db)"
  by (simp add: pull_changes_def pull_rows_def order_by_desc_sorted Let_def)

theorem pull_ordered_by_modified_at_desc_witness:
  "pull_rows None 7 [sample_row 1 7 1 500, sample_row 3 8 1 900, sample_row 2 7 2 700]
     = [sample_row 2 7 2 700, sample_row 1 7 1 500]
   \<and> sorted_wrt (\<lambda>a b. modified_at b \<le> modified_at a)
        (pull_rows None 7 [sample_row 1 7 1 500, sample_row 3 8 1 900, sample_row 2 7 2 700])"
proof -
  have "pull_rows None 7 [sample_row 1 7 1 500, sample_row 3 8 1 900, sample_row 2 7 2 700]
     = [sample_row 2 7 2 700, sample_row 1 7 1 500]"
    by (simp add: pull_rows_def order_by_desc_def sample_defs)
  with pull_ordered_by_modified_at_desc[of 3000 None 7
      "[sample_row 1 7 1 500, sample_row 3 8 1 900, sample_row 2 7 2 700]"]
  show ?thesis by blast
qed

subsection \<open>Pushing a rejected record again\<close>

text \<open>
  C9. A record rejected as a conflict (stored version greater than the pushed one) stays
  rejected: after any sequence of further requests that push it again, at whatever times and
  with whatever \<open>last_sync_at\<close>, the table is unchanged and the next push is again answered
  with that conflict; a batch that repeats the record \<open>n\<close> times reports \<open>n\<close> conflicts
  and leaves the table unchanged.
\<close>

theorem repeated_conflict_is_stable:
  assumes "select_task (ts_id t) uid db = [cur]"
    and "version cur > ts_version t"
  shows "fold (\<lambda>(utcnow, db_now, l) d.
                 snd (push_changes utcnow db_now \<lparr>tasks = [t], last_sync_at = l\<rparr> uid d)) envs db = db
       \<and> push_changes utcnow db_now \<lparr>tasks = [t], last_sync_at = l\<rparr> uid
           (fold (\<lambda>(utcnow, db_now, l) d.
                    snd (push_changes utcnow db_now \<lparr>tasks = [t], last_sync_at = l\<rparr> uid d)) envs db)
           = (Inr \<lparr>success = True, conflicts = [ts_id t], server_time = utcnow 0\<rparr>, db)
       \<and> push_changes utcnow db_now \<lparr>tasks = replicate n t, last_sync_at = l\<rparr> uid db
           = (Inr \<lparr>success = True, conflicts = replicate n (ts_id t), server_time = utcnow 0\<rparr>, db)"
proof -
  have one: "\<And>utcnow db_now l. push_changes utcnow db_now \<lparr>tasks = [t], last_sync_at = l\<rparr> uid db
           = (Inr \<lparr>success = True, conflicts = [ts_id t], server_time = utcnow 0\<rparr>, db)"
    using assms by (simp add: push_changes_single_existing)
  have again: "fold (\<lambda>(utcnow, db_now, l) d.
                 snd (push_changes utcnow db_now \<lparr>tasks = [t], last_sync_at = l\<rparr> uid d)) envs db = db"
    by (induction envs) (auto simp: one)
  let ?s0 = "\<lparr>st_rows = db, st_added = [], st_conflicts = [], st_ticks = 0\<rparr>"
  from assms(1) have "select_task (ts_id t) uid (st_rows ?s0) = [cur]" by simp
  from push_loop_replicate_conflict[OF this assms(2)]
  have "push_changes utcnow db_now \<lparr>tasks = replicate n t, last_sync_at = l\<rparr> uid db
           = (Inr \<lparr>success = True, conflicts = replicate n (ts_id t), server_time = utcnow 0\<rparr>, db)"
    by (simp add: push_changes_def commit_def flush_updates_same)
  with one again show ?thesis by simp
qed

theorem repeated_conflict_is_stable_witness:
  "select_task (ts_id (sample_push 1 1)) 7 [sample_row 1 7 3 500] = [sample_row 1 7 3 500]
   \<and> version (sample_row 1 7 3 500) > ts_version (sample_push 1 1)
   \<and> fold (\<lambda>(utcnow, db_now, l) d.
             snd (push_changes utcnow db_now \<lparr>tasks = [sample_push 1 1], last_sync_at = l\<rparr> 7 d))
        [(utc_clock, 2000, None), (utc_clock, 2001, Some 2000)] [sample_row 1 7 3 500]
       = [sample_row 1 7 3 500]
   \<and> push_changes utc_clock 2002 \<lparr>tasks = replicate 3 (sample_push 1 1), last_sync_at = None\<rparr> 7
         [sample_row 1 7 3 500]
       = (Inr \<lparr>success = True, conflicts = [1, 1, 1], server_time = 1000\<rparr>, [sample_row 1 7 3 500])"
proof -
  have h1: "select_task (ts_id (sample_push 1 1)) 7 [sample_row 1 7 3 500] = [sample_row 1 7 3 500]"
    by (simp add: select_task_def sample_defs)
  have h2: "version (sample_row 1 7 3 500) > ts_version (sample_push 1 1)"
    by (simp add: sample_defs)
  from repeated_conflict_is_stable[where utcnow = utc_clock and db_now = 2002 and l = None
      and n = 3 and envs = "[(utc_clock, 2000, None), (utc_clock, 2001, Some 2000)]", OF h1 h2]
  show ?thesis using h1 h2 by (simp add: sample_push_def utc_clock_def numeral_3_eq_3)
qed

subsection \<open>Versions never go back\<close>

text \<open>
  C10. An accepted update of an existing record (stored version not greater than the pushed
  one) leaves a version that is at least the stored version plus one, hence strictly
  greater: in the session's row after the step, and in the row of the table after any
  request that commits, for a record that is the only one of its batch with its id. And
  whatever the batch, and whether the request commits or raises, no row of the table ends
  with a lower version than it had.
\<close>

theorem accepted_update_strictly_increases:
  assumes "select_task (ts_id t) uid db = [cur]"
    and "version cur \<le> ts_version t"
  shows "(\<forall>s. select_task (ts_id t) uid (st_rows s) = [cur] \<longrightarrow>
            (\<exists>s' new. push_task utcnow uid t s = Inr s'
               \<and> select_task (ts_id t) uid (st_rows s') = [new]
               \<and> version cur + 1 \<le> version new \<and> version cur < version new))
       \<and> (\<forall>data pre post r db'.
            tasks data = pre @ t # post \<and> ts_id t \<notin> ts_id ` (set pre \<union> set post)
            \<and> push_changes utcnow db_now data uid db = (Inr r, db') \<longrightarrow>
              (\<exists>new. select_task (ts_id t) uid db' = [new]
                 \<and> version cur + 1 \<le> version new \<and> version cur < version new))
       \<and> (\<forall>data. list_all2 (\<lambda>old new. task_id new = task_id old \<and> user_id new = user_id old
                                      \<and> version old \<le> version new)
                     db (take (length db) (snd (push_changes utcnow db_now data uid db))))"
proof -
  have a: "\<forall>s. select_task (ts_id t) uid (st_rows s) = [cur] \<longrightarrow>
            (\<exists>s' new. push_task utcnow uid t s = Inr s'
               \<and> select_task (ts_id t) uid (st_rows s') = [new]
               \<and> version cur + 1 \<le> version new \<and> version cur < version new)"
    using assms(2) by (auto simp: push_task_existing select_after_update)
  have b: "\<forall>data pre post r db'.
            tasks data = pre @ t # post \<and> ts_id t \<notin> ts_id ` (set pre \<union> set post)
            \<and> push_changes utcnow db_now data uid db = (Inr r, db') \<longrightarrow>
              (\<exists>new. select_task (ts_id t) uid db' = [new]
                 \<and> version cur + 1 \<le> version new \<and> version cur < version new)"
  proof (intro allI impI)
    fix data pre post r db'
    assume h: "tasks data = pre @ t # post \<and> ts_id t \<notin> ts_id ` (set pre \<union> set post)
            \<and> push_changes utcnow db_now data uid db = (Inr r, db')"
    then have 1: "push_changes utcnow db_now data uid db = (Inr r, db')"
      and 2: "tasks data = pre @ t # post"
      and 3: "ts_id t \<notin> ts_id ` (set pre \<union> set post)" by simp_all
    from push_changes_record(2)[OF 1 2 3 assms] obtain k where
      "select_task (ts_id t) uid db' = [as_stored (update_existing t (utcnow k) cur)]" by blast
    with assms(2) show "\<exists>new. select_task (ts_id t) uid db' = [new]
                 \<and> version cur + 1 \<le> version new \<and> version cur < version new"
      by auto
  qed
  have c: "\<forall>data. list_all2 (\<lambda>old new. task_id new = task_id old \<and> user_id new = user_id old
                                      \<and> version old \<le> version new)
                     db (take (length db) (snd (push_changes utcnow db_now data uid db)))"
    using push_changes_version_mono by blast
  from a b c show ?thesis by (intro conjI)
qed

theorem accepted_update_strictly_increases_witness:
  "select_task (ts_id (sample_push 1 4)) 7 [sample_row 1 7 2 500] = [sample_row 1 7 2 500]
   \<and> version (sample_row 1 7 2 500) \<le> ts_version (sample_push 1 4)
   \<and> tasks \<lparr>tasks = [sample_push 2 1, sample_push 1 4], last_sync_at = None\<rparr>
       = [sample_push 2 1] @ sample_push 1 4 # []
   \<and> ts_id (sample_push 1 4) \<notin> ts_id ` (set [sample_push 2 1] \<union> set [])
   \<and> push_changes utc_clock 2000 \<lparr>tasks = [sample_push 2 1, sample_push 1 4], last_sync_at = None\<rparr> 7
         [sample_row 1 7 2 500]
       = (Inr \<lparr>success = True, conflicts = [], server_time = 1001\<rparr>,
          [(sample_row 1 7 2 500)\<lparr>version := 5, modified_at := 1000\<rparr>, sample_row 2 7 1 2000])
   \<and> (\<exists>new. select_task (ts_id (sample_push 1 4)) 7
               [(sample_row 1 7 2 500)\<lparr>version := 5, modified_at := 1000\<rparr>, sample_row 2 7 1 2000]
             = [new]
          \<and> version (sample_row 1 7 2 500) < version new)
   \<and> list_all2 (\<lambda>old new. task_id new = task_id old \<and> user_id new = user_id old
                            \<and> version old \<le> version new)
         [sample_row 1 7 2 500] [(sample_row 1 7 2 500)\<lparr>version := 5, modified_at := 1000\<rparr>]
   \<and> (\<exists>s' new. push_task utc_clock 7 (sample_push 1 4)
                   \<lparr>st_rows = [sample_row 1 7 2 500], st_added = [], st_conflicts = [], st_ticks = 0\<rparr>
                 = Inr s'
          \<and> select_task (ts_id (sample_push 1 4)) 7 (st_rows s') = [new]
          \<and> version (sample_row 1 7 2 500) < version new)"
proof -
  let ?s0 = "\<lparr>st_rows = [sample_row 1 7 2 500], st_added = [], st_conflicts = [], st_ticks = 0\<rparr>"
  let ?db = "[sample_row 1 7 2 500]"
  let ?data = "\<lparr>tasks = [sample_push 2 1, sample_push 1 4], last_sync_at = None\<rparr>"
  let ?db' = "[(sample_row 1 7 2 500)\<lparr>version := 5, modified_at := 1000\<rparr>, sample_row 2 7 1 2000]"
  let ?r = "\<lparr>success = True, conflicts = [], server_time = 1001\<rparr>"
  have h1: "select_task (ts_id (sample_push 1 4)) 7 ?db = [sample_row 1 7 2 500]"
    by (simp add: select_task_def sample_defs)
  have h2: "version (sample_row 1 7 2 500) \<le> ts_version (sample_push 1 4)"
    by (simp add: sample_defs)
  have h3: "tasks ?data = [sample_push 2 1] @ sample_push 1 4 # []" by simp
  have h4: "ts_id (sample_push 1 4) \<notin> ts_id ` (set [sample_push 2 1] \<union> set [])"
    by (simp add: sample_defs)
  have h5: "push_changes utc_clock 2000 ?data 7 ?db = (Inr ?r, ?db')"
    by (simp add: push_defs column_defs sample_defs)
  note inc = accepted_update_strictly_increases[where utcnow = utc_clock and db_now = 2000,
      OF h1 h2]
  from inc h3 h4 h5
  have a: "\<exists>new. select_task (ts_id (sample_push 1 4)) 7 ?db' = [new]
          \<and> version (sample_row 1 7 2 500) < version new" by blast
  from inc have "list_all2 (\<lambda>old new. task_id new = task_id old \<and> user_id new = user_id old
                            \<and> version old \<le> version new)
         ?db (take (length ?db) (snd (push_changes utc_clock 2000 ?data 7 ?db)))" by blast
  then have b: "list_all2 (\<lambda>old new. task_id new = task_id old \<and> user_id new = user_id old
                            \<and> version old \<le> version new)
         [sample_row 1 7 2 500] [(sample_row 1 7 2 500)\<lparr>version := 5, modified_at := 1000\<rparr>]"
    by (simp only: h5 snd_conv) simp
  from h1 have "select_task (ts_id (sample_push 1 4)) 7 (st_rows ?s0) = [sample_row 1 7 2 500]"
    by simp
  with inc have st: "\<exists>s' new. push_task utc_clock 7 (sample_push 1 4) ?s0 = Inr s'
          \<and> select_task (ts_id (sample_push 1 4)) 7 (st_rows s') = [new]
          \<and> version (sample_row 1 7 2 500) < version new" by blast
  from h1 h2 h3 h4 h5 a b st show ?thesis by blast
qed

end
